theory Spec2Isabelle
  imports Main
begin

section \<open>The schedule builder of rhubarb\_bridge.py\<close>

text \<open>
  The development embeds the pure core of \<^verbatim>\<open>src/code/rhubarb_bridge.py\<close>: the parser
  \<^verbatim>\<open>parse_annotated_text\<close> and the part of \<^verbatim>\<open>main\<close> that runs after the two external
  tools have returned (the loop over the tags, the loop over the mouth cues and the
  writer of the schedule file).

  Modelling decisions.
  \<^item> The script is ASCII text. \<open>isspace\<close> and \<open>isword\<close> are the classes \<^verbatim>\<open>\s\<close> and
    \<^verbatim>\<open>\w\<close> of Python's \<^verbatim>\<open>re\<close> on ASCII characters, \<open>lower\<close> is \<^verbatim>\<open>str.lower\<close> on them.
  \<^item> A timestamp enters the output only through the format \<^verbatim>\<open>{:.3f}\<close>. It is modelled
    by the signed number of milliseconds that this format prints, so \<open>1500\<close> stands
    for the float printed as \<^verbatim>\<open>1.500\<close> and \<open>- 500\<close> for the one printed as
    \<^verbatim>\<open>-0.500\<close>. The one rendering without such a number is \<^verbatim>\<open>-0.000\<close>, of a
    negative time nearer to zero than half a millisecond.
  \<^item> The lines of a section are strings, built as the f-strings of the source build
    them; the writer reads the value of a line back with \<^verbatim>\<open>line.split(',')[-1]\<close>.
\<close>

subsection \<open>Strings of the Python runtime\<close>

definition newline :: char where
  "newline = CHR 0x0A"

definition isspace :: "char \<Rightarrow> bool" where
  "isspace c = (c \<in> set [CHR 0x09, CHR 0x0A, CHR 0x0B, CHR 0x0C, CHR 0x0D,
                          CHR 0x1C, CHR 0x1D, CHR 0x1E, CHR 0x1F, CHR 0x20])"

definition isword :: "char \<Rightarrow> bool" where
  "isword c = (let n = (of_char c :: nat) in
     (48 \<le> n \<and> n \<le> 57) \<or> (65 \<le> n \<and> n \<le> 90) \<or> (97 \<le> n \<and> n \<le> 122) \<or> n = 95)"

definition lower_char :: "char \<Rightarrow> char" where
  "lower_char c = (let n = (of_char c :: nat) in
     if 65 \<le> n \<and> n \<le> 90 then char_of (n + 32) else c)"

definition lower :: "string \<Rightarrow> string" where
  "lower s = map lower_char s"

text \<open>\<^verbatim>\<open>s.strip()\<close>: whitespace removed at both ends.\<close>

definition strip :: "string \<Rightarrow> string" where
  "strip s = rev (dropWhile isspace (rev (dropWhile isspace s)))"

text \<open>\<^verbatim>\<open>s.split(sep)\<close> for a one-character separator: never an empty list.\<close>

fun split_on :: "char \<Rightarrow> string \<Rightarrow> string list" where
  "split_on sep [] = [[]]"
| "split_on sep (c # cs) =
     (if c = sep then [] # split_on sep cs
      else (case split_on sep cs of
              [] \<Rightarrow> [[c]]
            | piece # pieces \<Rightarrow> (c # piece) # pieces))"

text \<open>\<^verbatim>\<open>sep.join(xs)\<close>.\<close>

fun join :: "string \<Rightarrow> string list \<Rightarrow> string" where
  "join sep [] = []"
| "join sep [x] = x"
| "join sep (x # y # ys) = x @ sep @ join sep (y # ys)"

definition startswith :: "char \<Rightarrow> string \<Rightarrow> bool" where
  "startswith c token = (case token of [] \<Rightarrow> False | x # _ \<Rightarrow> x = c)"

definition endswith :: "char \<Rightarrow> string \<Rightarrow> bool" where
  "endswith c token = (token \<noteq> [] \<and> last token = c)"

text \<open>\<^verbatim>\<open>token[1:-1]\<close>.\<close>

definition interior :: "string \<Rightarrow> string" where
  "interior token = butlast (tl token)"

text \<open>\<^verbatim>\<open>str(n)\<close> for a non-negative integer.\<close>

definition digit_char :: "nat \<Rightarrow> char" where
  "digit_char d = ''0123456789'' ! d"

fun str_nat :: "nat \<Rightarrow> string" where
  "str_nat n = (if n < 10 then [digit_char n]
                else str_nat (n div 10) @ [digit_char (n mod 10)])"

declare str_nat.simps [simp del]

text \<open>The digits of a number of milliseconds as seconds with three decimals.\<close>

definition fixed3 :: "nat \<Rightarrow> string" where
  "fixed3 m = str_nat (m div 1000) @ ''.'' @
     [digit_char (m div 100 mod 10), digit_char (m div 10 mod 10), digit_char (m mod 10)]"

text \<open>
  \<^verbatim>\<open>f"{t:.3f}"\<close> on a time given in milliseconds: the sign of a negative time, then
  the digits of its magnitude.
\<close>

definition time_str :: "int \<Rightarrow> string" where
  "time_str ms = (if ms < 0 then ''-'' else []) @ fixed3 (nat \<bar>ms\<bar>)"

subsection \<open>The regular expressions of the parser\<close>

text \<open>
  \<^verbatim>\<open><[^>]+>\<close> and \<^verbatim>\<open>\[[^\]]+\]\<close> at the head of \<open>s\<close>: the opening character, the longest
  run of characters other than the closing one, which must not be empty, and the
  closing character. Giving back characters of the run cannot help, since the
  character after a shorter run is not the closing one.
\<close>

definition match_bracket :: "char \<Rightarrow> char \<Rightarrow> string \<Rightarrow> (string \<times> string) option" where
  "match_bracket l r s =
     (case s of
        [] \<Rightarrow> None
      | c # rest \<Rightarrow>
          if c \<noteq> l then None
          else (let body = takeWhile (\<lambda>x. x \<noteq> r) rest;
                    after = dropWhile (\<lambda>x. x \<noteq> r) rest
                in if body = [] \<or> after = [] then None
                   else Some (c # body @ [r], tl after)))"

text \<open>
  \<^verbatim>\<open>re.findall(r'<[^>]+>|\[[^\]]+\]|\S+', line)\<close>: at each position the three
  alternatives in their order; where none matches (a whitespace character) the scan
  moves one character on.
\<close>

function findall_tokens :: "string \<Rightarrow> string list" where
  "findall_tokens [] = []"
| "findall_tokens (c # rest) =
     (case match_bracket (CHR ''<'') (CHR ''>'') (c # rest) of
        Some (tok, s') \<Rightarrow> tok # findall_tokens s'
      | None \<Rightarrow>
         (case match_bracket (CHR ''['') (CHR '']'') (c # rest) of
            Some (tok, s') \<Rightarrow> tok # findall_tokens s'
          | None \<Rightarrow>
              if isspace c then findall_tokens rest
              else (c # takeWhile (\<lambda>x. \<not> isspace x) rest)
                     # findall_tokens (dropWhile (\<lambda>x. \<not> isspace x) rest)))"
  by pat_completeness auto
termination
proof -
  have shorter: "length s' < length s"
    if m: "match_bracket l r s = Some (tok, s')" for l r s tok s'
  proof -
    from m obtain c rest where s: "s = c # rest"
      and s': "s' = tl (dropWhile (\<lambda>x. x \<noteq> r) rest)"
      by (auto simp: match_bracket_def Let_def split: list.splits if_splits)
    have "length s' \<le> length rest"
      using length_dropWhile_le [of "\<lambda>x. x \<noteq> r" rest] by (simp add: s')
    then show ?thesis by (simp add: s)
  qed
  show ?thesis
    by (relation "measure length")
      (auto dest: shorter simp: less_Suc_eq_le length_dropWhile_le)
qed

text \<open>\<^verbatim>\<open>re.sub(r'[^\w\s]', '', token)\<close>.\<close>

definition clean :: "string \<Rightarrow> string" where
  "clean token = filter (\<lambda>c. isword c \<or> isspace c) token"

subsection \<open>parse\_annotated\_text\<close>

datatype tag_type = Emotion | Image | ImageAuto

text \<open>A tag is the tuple \<^verbatim>\<open>(word_index, type, value, line_index, paragraph_index)\<close>.\<close>

type_synonym tag = "nat \<times> tag_type \<times> nat \<times> nat \<times> nat"

definition tag_word :: "tag \<Rightarrow> nat" where
  "tag_word tg = fst tg"

definition tag_kind :: "tag \<Rightarrow> tag_type" where
  "tag_kind tg = fst (snd tg)"

definition tag_line :: "tag \<Rightarrow> nat" where
  "tag_line tg = fst (snd (snd (snd tg)))"

definition emotions_map :: "string \<rightharpoonup> nat" where
  "emotions_map = map_of
     [(''explain'', 0), (''happy'', 1), (''sad'', 2), (''angry'', 3), (''confused'', 4), (''rq'', 5)]"

record pstate =
  words :: "string list"
  tags :: "tag list"
  current_word_idx :: nat
  current_para_idx :: nat

text \<open>The body of the loop over the tokens of a line.\<close>

definition process_token :: "nat \<Rightarrow> pstate \<Rightarrow> string \<Rightarrow> pstate" where
  "process_token l_idx st token =
     (if startswith (CHR ''<'') token \<and> endswith (CHR ''>'') token then
        (let emotion_name = lower (interior token)
         in case emotions_map emotion_name of
              Some code \<Rightarrow>
                st\<lparr>tags := tags st @
                  [(current_word_idx st, Emotion, code, l_idx, current_para_idx st)]\<rparr>
            | None \<Rightarrow> st)
      else if startswith (CHR ''['') token \<and> endswith (CHR '']'') token then
        st\<lparr>tags := tags st @
          [(current_word_idx st, Image, l_idx, l_idx, current_para_idx st)]\<rparr>
      else
        (let clean_word = clean token
         in if clean_word \<noteq> [] then
              st\<lparr>words := words st @ [clean_word],
                 current_word_idx := current_word_idx st + 1\<rparr>
            else st))"

text \<open>The body of the loop over the lines.\<close>

definition process_line :: "pstate \<Rightarrow> nat \<times> string \<Rightarrow> pstate" where
  "process_line st il =
     (case il of (l_idx, line) \<Rightarrow>
        (let st1 = (if strip line = [] \<and> l_idx > 0
                    then st\<lparr>current_para_idx := current_para_idx st + 1\<rparr> else st);
             st2 = foldl (process_token l_idx) st1 (findall_tokens line)
         in st2\<lparr>tags := tags st2 @
              [(current_word_idx st2, ImageAuto, l_idx, l_idx, current_para_idx st2)]\<rparr>))"

definition parse_init :: pstate where
  "parse_init = \<lparr>words = [], tags = [], current_word_idx = 0, current_para_idx = 0\<rparr>"

definition parse_state :: "string \<Rightarrow> pstate" where
  "parse_state text = foldl process_line parse_init (enumerate 0 (split_on newline text))"

definition parse_annotated_text :: "string \<Rightarrow> string list \<times> tag list" where
  "parse_annotated_text text = (words (parse_state text), tags (parse_state text))"

subsection \<open>The resolver: the loop of main over the tags\<close>

text \<open>A word of the recogniser with its \<^verbatim>\<open>start\<close> and \<^verbatim>\<open>end\<close>, in milliseconds.\<close>

record timed_word =
  w_start :: int
  w_end :: int

text \<open>A mouth cue with its \<^verbatim>\<open>start\<close> and its \<^verbatim>\<open>value\<close>.\<close>

record cue =
  cue_start :: int
  cue_value :: string

definition start_time :: "timed_word list \<Rightarrow> nat \<Rightarrow> int" where
  "start_time vosk_words word_idx =
     (if word_idx < length vosk_words then w_start (vosk_words ! word_idx)
      else if length vosk_words > 0 then w_end (last vosk_words)
      else 0)"

text \<open>\<^verbatim>\<open>f"{time_str},{name},{value}"\<close>.\<close>

definition mk_line :: "int \<Rightarrow> string \<Rightarrow> string \<Rightarrow> string" where
  "mk_line ms name v = time_str ms @ '','' @ name @ '','' @ v"

text \<open>\<^verbatim>\<open>sections[k].append(line)\<close>.\<close>

definition append_line :: "nat \<Rightarrow> string \<Rightarrow> string list list \<Rightarrow> string list list" where
  "append_line k line secs = secs[k := secs ! k @ [line]]"

record rstate =
  sections :: "string list list"
  last_l_idx :: int
  last_p_idx :: int
  pose :: nat

definition resolve_init :: rstate where
  "resolve_init =
     \<lparr>sections = [[''0.000,paragraph,0''], [''0.000,emotion,0''], [''0.000,image,0''],
                   [''0.000,pose,0''], []],
      last_l_idx = - 1, last_p_idx = - 1, pose = 0\<rparr>"

fun resolve_tag :: "timed_word list \<Rightarrow> rstate \<Rightarrow> tag \<Rightarrow> rstate" where
  "resolve_tag vosk_words st (word_idx, tag_type, tag_val, l_idx, p_idx) =
     (let t = start_time vosk_words word_idx
      in if tag_type = Emotion then
           st\<lparr>sections := append_line 1 (mk_line t ''emotion'' (str_nat tag_val)) (sections st)\<rparr>
         else if tag_type = Image \<or> tag_type = ImageAuto then
           (let st1 = (if int l_idx \<noteq> last_l_idx st then
                         (let pose' = (pose st + 1) mod 5
                          in st\<lparr>sections :=
                                  append_line 3 (mk_line t ''pose'' (str_nat pose'))
                                    (append_line 2 (mk_line t ''image'' (str_nat l_idx))
                                       (sections st)),
                                pose := pose',
                                last_l_idx := int l_idx\<rparr>)
                       else st)
            in if int p_idx \<noteq> last_p_idx st1 then
                 st1\<lparr>sections :=
                       append_line 0 (mk_line t ''paragraph'' (str_nat p_idx)) (sections st1),
                     last_p_idx := int p_idx\<rparr>
               else st1)
         else st)"

definition resolve_tags :: "timed_word list \<Rightarrow> tag list \<Rightarrow> rstate" where
  "resolve_tags vosk_words tgs = foldl (resolve_tag vosk_words) resolve_init tgs"

subsection \<open>The mouth cues\<close>

definition RHUBARB_MAP :: "string \<rightharpoonup> string" where
  "RHUBARB_MAP = map_of
     [(''A'', ''m''), (''B'', ''t''), (''C'', ''a''), (''D'', ''a''), (''E'', ''u''),
      (''F'', ''au''), (''G'', ''f''), (''H'', ''y''), (''X'', ''m'')]"

text \<open>\<^verbatim>\<open>RHUBARB_MAP.get(code, 'm')\<close>.\<close>

definition shape_of :: "string \<Rightarrow> string" where
  "shape_of code = (case RHUBARB_MAP code of Some shape \<Rightarrow> shape | None \<Rightarrow> ''m'')"

definition cue_line :: "cue \<Rightarrow> string" where
  "cue_line c = mk_line (cue_start c) ''phoneme'' (shape_of (cue_value c))"

definition add_cue :: "string list list \<Rightarrow> cue \<Rightarrow> string list list" where
  "add_cue secs c = append_line 4 (cue_line c) secs"

text \<open>The five lists of lines as \<^verbatim>\<open>main\<close> holds them before it writes the file.\<close>

definition raw_sections :: "string \<Rightarrow> timed_word list \<Rightarrow> cue list \<Rightarrow> string list list" where
  "raw_sections text vosk_words mouthCues =
     foldl add_cue
       (sections (resolve_tags vosk_words (snd (parse_annotated_text text)))) mouthCues"

subsection \<open>The writer\<close>

text \<open>\<^verbatim>\<open>line.split(',')[-1]\<close>.\<close>

definition line_val :: "string \<Rightarrow> string" where
  "line_val line = last (split_on (CHR '','') line)"

text \<open>
  The loop that fills \<^verbatim>\<open>unique_lines\<close>; \<open>last_val\<close> is \<^verbatim>\<open>None\<close> before the first line.
\<close>

fun unique_from :: "string option \<Rightarrow> string list \<Rightarrow> string list" where
  "unique_from last_val [] = []"
| "unique_from last_val (line # rest) =
     (let val = line_val line
      in if Some val \<noteq> last_val then line # unique_from (Some val) rest
         else unique_from last_val rest)"

definition unique_lines :: "string list \<Rightarrow> string list" where
  "unique_lines section_lines = unique_from None section_lines"

definition write_section :: "nat \<times> string list \<Rightarrow> string" where
  "write_section isec =
     (case isec of (i, section_lines) \<Rightarrow>
        join [newline] (unique_lines section_lines) @ [newline] @
        (if i < 4 then ''SECTION'' @ [newline] else []))"

definition write_schedule :: "string list list \<Rightarrow> string" where
  "write_schedule secs = concat (map write_section (enumerate 0 secs))"

text \<open>The five lists as they are written, and the text of the schedule file.\<close>

definition final_sections :: "string \<Rightarrow> timed_word list \<Rightarrow> cue list \<Rightarrow> string list list" where
  "final_sections text vosk_words mouthCues =
     map unique_lines (raw_sections text vosk_words mouthCues)"

definition schedule :: "string \<Rightarrow> timed_word list \<Rightarrow> cue list \<Rightarrow> string" where
  "schedule text vosk_words mouthCues = write_schedule (raw_sections text vosk_words mouthCues)"

subsection \<open>Reading a line back\<close>

text \<open>
  The timestamp of a line, in milliseconds: the digits of its first field, negated when
  the field starts with a minus sign. It is used only to state properties of the lines
  the program builds.
\<close>

definition digit_val :: "char \<Rightarrow> nat" where
  "digit_val c = of_char c - 48"

definition read_digits :: "string \<Rightarrow> nat" where
  "read_digits s = foldl (\<lambda>a c. 10 * a + digit_val c) 0 s"

definition line_time :: "string \<Rightarrow> int" where
  "line_time line =
     (let field = takeWhile (\<lambda>c. c \<noteq> CHR '','') line
      in if startswith (CHR ''-'') field
         then - int (read_digits (filter (\<lambda>c. c \<noteq> CHR ''.'') (tl field)))
         else int (read_digits (filter (\<lambda>c. c \<noteq> CHR ''.'') field)))"

subsection \<open>Notions used in the statements\<close>

text \<open>
  The line indices of the image and image\_auto tags of a tag list, in their order.
\<close>

definition image_lines :: "tag list \<Rightarrow> nat list" where
  "image_lines tgs = map tag_line (filter (\<lambda>tg. tag_kind tg \<noteq> Emotion) tgs)"

text \<open>
  The line indices of the image\_auto tags of a tag list, in their order.
\<close>

definition auto_lines :: "tag list \<Rightarrow> nat list" where
  "auto_lines tgs = map tag_line (filter (\<lambda>tg. tag_kind tg = ImageAuto) tgs)"

text \<open>
  The word indices of the tags emitted so far are in order and none is beyond the
  current word index.
\<close>

definition words_sorted :: "pstate \<Rightarrow> bool" where
  "words_sorted st =
     (sorted (map tag_word (tags st)) \<and> (\<forall>tg \<in> set (tags st). tag_word tg \<le> current_word_idx st))"

text \<open>
  The time the resolver looks up for a tag.
\<close>

definition tag_time :: "timed_word list \<Rightarrow> tag \<Rightarrow> int" where
  "tag_time tw tg = start_time tw (tag_word tg)"

text \<open>
  A timed-word list in chronological order: the starts do not decrease and the last
  word does not end before it starts.
\<close>

definition chronological :: "timed_word list \<Rightarrow> bool" where
  "chronological tw =
     (sorted (map w_start tw) \<and> (tw \<noteq> [] \<longrightarrow> w_start (last tw) \<le> w_end (last tw)))"

text \<open>
  No timed word starts before time zero.
\<close>

definition starts_nonneg :: "timed_word list \<Rightarrow> bool" where
  "starts_nonneg tw = list_all (\<lambda>w. 0 \<le> w_start w) tw"

text \<open>
  The lines of a section are in the order of their timestamps and none is later than
  \<open>T\<close>.
\<close>

definition times_upto :: "int \<Rightarrow> string list \<Rightarrow> bool" where
  "times_upto T sec = (sorted (map line_time sec) \<and> (\<forall>l \<in> set sec. line_time l \<le> T))"

text \<open>
  The compactor as the specification words it: an event is kept if and only if its
  value differs from the value of the event kept before it; the first event of a list is
  always kept.
\<close>

fun keep_changes :: "string \<Rightarrow> string list \<Rightarrow> string list" where
  "keep_changes prev [] = []"
| "keep_changes prev (e # es) =
     (if line_val e \<noteq> line_val prev then e # keep_changes e es else keep_changes prev es)"

text \<open>
  The compactor of the specification on a whole list: the first event is kept and is the
  first previous value.
\<close>

definition compactor_spec :: "string list \<Rightarrow> string list" where
  "compactor_spec ls = (case ls of [] \<Rightarrow> [] | e # es \<Rightarrow> e # keep_changes e es)"

section \<open>Auxiliary facts\<close>

subsection \<open>Decimal strings\<close>

lemma digit_char_cases:
  "d < 10 \<Longrightarrow> digit_char d \<in> set ''0123456789''"
  unfolding digit_char_def by (rule nth_mem) simp

lemma digit_val_digit_char: "d < 10 \<Longrightarrow> digit_val (digit_char d) = d"
proof -
  assume "d < 10"
  then have "d \<in> {0,1,2,3,4,5,6,7,8,9}" by auto
  then show ?thesis
    by (auto simp: digit_val_def digit_char_def)
qed

lemma str_nat_digits: "set (str_nat n) \<subseteq> set ''0123456789''"
proof (induction n rule: str_nat.induct)
  case (1 n)
  show ?case
  proof (cases "n < 10")
    case True
    then show ?thesis using digit_char_cases [of n] by (subst str_nat.simps) simp
  next
    case False
    have "n mod 10 < 10" by simp
    then show ?thesis using 1 [OF False] False digit_char_cases [of "n mod 10"]
      by (subst str_nat.simps) simp
  qed
qed

lemma str_nat_no_comma: "CHR '','' \<notin> set (str_nat n)"
  using str_nat_digits [of n] by auto

lemma str_nat_no_dot: "CHR ''.'' \<notin> set (str_nat n)"
  using str_nat_digits [of n] by auto

lemma read_digits_snoc: "read_digits (s @ [c]) = 10 * read_digits s + digit_val c"
  by (simp add: read_digits_def)

lemma read_digits_str_nat: "read_digits (str_nat n) = n"
proof (induction n rule: str_nat.induct)
  case (1 n)
  show ?case
  proof (cases "n < 10")
    case True
    then show ?thesis
      by (subst str_nat.simps) (simp add: read_digits_def digit_val_digit_char)
  next
    case False
    then show ?thesis using 1 [OF False]
      by (subst str_nat.simps) (simp add: read_digits_snoc digit_val_digit_char)
  qed
qed

lemma str_nat_inj: "str_nat m = str_nat n \<Longrightarrow> m = n"
  by (metis read_digits_str_nat)

lemma fixed3_no_comma: "CHR '','' \<notin> set (fixed3 m)"
proof -
  have "CHR '','' \<noteq> digit_char d" if "d < 10" for d
    using digit_char_cases [OF that] by auto
  then show ?thesis
    using str_nat_no_comma by (simp add: fixed3_def)
qed

lemma read_fixed3:
  "read_digits (filter (\<lambda>c. c \<noteq> CHR ''.'') (fixed3 ms)) = ms"
proof -
  have nd: "digit_char d \<noteq> CHR ''.''" if "d < 10" for d
    using digit_char_cases [OF that] by auto
  have f: "filter (\<lambda>c. c \<noteq> CHR ''.'') (str_nat q) = str_nat q" for q
    using str_nat_no_dot [of q] by (simp add: filter_id_conv) metis
  have "filter (\<lambda>c. c \<noteq> CHR ''.'') (fixed3 ms) =
      ((str_nat (ms div 1000) @ [digit_char (ms div 100 mod 10)]) @ [digit_char (ms div 10 mod 10)])
        @ [digit_char (ms mod 10)]"
    by (simp add: fixed3_def f nd)
  then have "read_digits (filter (\<lambda>c. c \<noteq> CHR ''.'') (fixed3 ms)) =
      10 * (10 * (10 * (ms div 1000) + ms div 100 mod 10) + ms div 10 mod 10) + ms mod 10"
    by (simp only: read_digits_snoc read_digits_str_nat) (simp add: digit_val_digit_char)
  also have "\<dots> = ms"
  proof -
    define a where "a = ms div 10"
    define b where "b = a div 10"
    have e1: "ms div 100 = b" and e2: "ms div 1000 = b div 10"
      by (simp_all add: a_def b_def div_mult2_eq)
    have "10 * (10 * (10 * (b div 10) + b mod 10) + a mod 10) + ms mod 10 = ms"
      by (simp add: a_def b_def)
    then show ?thesis by (simp only: e1 e2 a_def [symmetric])
  qed
  finally show ?thesis .
qed

lemma str_nat_small: "n < 10 \<Longrightarrow> str_nat n = [digit_char n]"
  by (subst str_nat.simps) simp

lemma str_nat_not_Nil: "str_nat n \<noteq> []"
  by (subst str_nat.simps) simp

lemma fixed3_no_sign: "\<not> startswith (CHR ''-'') (fixed3 m)"
proof -
  obtain c r where cr: "str_nat (m div 1000) = c # r"
    using str_nat_not_Nil [of "m div 1000"] by (cases "str_nat (m div 1000)") auto
  then have "c \<in> set ''0123456789''"
    using str_nat_digits [of "m div 1000"] by auto
  then have "c \<noteq> CHR ''-''" by auto
  then show ?thesis by (simp add: fixed3_def cr startswith_def)
qed

lemma time_str_no_comma: "CHR '','' \<notin> set (time_str ms)"
  using fixed3_no_comma by (simp add: time_str_def)

lemma time_str_zero: "time_str 0 = ''0.000''"
  by (simp add: time_str_def fixed3_def str_nat_small digit_char_def)

subsection \<open>The fields of a line\<close>

lemma split_on_not_Nil: "split_on sep s \<noteq> []"
  by (induction s) (auto split: list.splits)

lemma split_on_no_sep: "sep \<notin> set v \<Longrightarrow> split_on sep v = [v]"
  by (induction v) auto

lemma length_split_on: "length (split_on sep s) = Suc (length (filter (\<lambda>c. c = sep) s))"
  by (induction s) (auto split: list.splits)

lemma last_split_on: "sep \<notin> set v \<Longrightarrow> last (split_on sep (a @ sep # v)) = v"
proof (induction a)
  case Nil
  then show ?case by (simp add: split_on_no_sep)
next
  case (Cons c a)
  obtain p q ps where sp: "split_on sep (a @ sep # v) = p # q # ps"
    using length_split_on [of sep "a @ sep # v"]
    by (cases "split_on sep (a @ sep # v)"; cases "tl (split_on sep (a @ sep # v))") auto
  show ?case using Cons sp by simp
qed

lemma line_val_mk_line: "CHR '','' \<notin> set v \<Longrightarrow> line_val (mk_line ms name v) = v"
  using last_split_on [of "CHR '',''" v "time_str ms @ '','' @ name"]
  by (simp add: line_val_def mk_line_def)

lemma line_val_mk_line_nat: "line_val (mk_line ms name (str_nat n)) = str_nat n"
  by (rule line_val_mk_line [OF str_nat_no_comma])

lemma line_time_mk_line: "line_time (mk_line ms name v) = ms"
proof -
  have t: "takeWhile (\<lambda>c. c \<noteq> CHR '','') (mk_line ms name v) = time_str ms"
    using time_str_no_comma [of ms] by (auto simp: mk_line_def takeWhile_tail)
  show ?thesis
  proof (cases "ms < 0")
    case True
    then have "time_str ms = CHR ''-'' # fixed3 (nat (- ms))"
      by (simp add: time_str_def)
    with True show ?thesis
      by (simp add: line_time_def t Let_def startswith_def read_fixed3)
  next
    case False
    then have "time_str ms = fixed3 (nat ms)"
      by (simp add: time_str_def)
    with False show ?thesis
      using fixed3_no_sign [of "nat ms"]
      by (simp add: line_time_def t Let_def read_fixed3)
  qed
qed

subsection \<open>The compactor\<close>

lemma unique_from_vals:
  "map line_val (unique_from (Some v) ls) = tl (remdups_adj (v # map line_val ls))"
  by (induction ls arbitrary: v) (auto simp: Let_def)

lemma unique_lines_Cons:
  "unique_lines (l # ls) = l # unique_from (Some (line_val l)) ls"
  by (simp add: unique_lines_def Let_def)

lemma unique_lines_vals:
  "map line_val (unique_lines ls) = remdups_adj (map line_val ls)"
  by (cases ls) (simp_all add: unique_lines_Cons unique_from_vals, simp add: unique_lines_def)

lemma unique_from_subset: "set (unique_from lv ls) \<subseteq> set ls"
  by (induction ls arbitrary: lv) (auto simp: Let_def)

lemma unique_from_sorted:
  "sorted (map f ls) \<Longrightarrow> sorted (map f (unique_from lv ls))"
proof (induction ls arbitrary: lv)
  case Nil
  then show ?case by simp
next
  case (Cons l ls)
  then show ?case using unique_from_subset [of "Some (line_val l)" ls]
    by (auto simp: Let_def)
qed

lemma unique_from_id:
  "distinct_adj (map line_val ls) \<Longrightarrow> (ls \<noteq> [] \<Longrightarrow> Some (line_val (hd ls)) \<noteq> lv)
    \<Longrightarrow> unique_from lv ls = ls"
proof (induction ls arbitrary: lv)
  case Nil
  then show ?case by simp
next
  case (Cons l ls)
  then show ?case by (cases ls) (auto simp: Let_def distinct_adj_Cons)
qed

lemma unique_lines_id: "distinct_adj (map line_val ls) \<Longrightarrow> unique_lines ls = ls"
  by (simp add: unique_lines_def unique_from_id)

subsection \<open>One step of the resolver\<close>

lemma length_append_line [simp]: "length (append_line k l secs) = length secs"
  by (simp add: append_line_def)

lemma nth_append_line:
  "k < length secs \<Longrightarrow>
     append_line k l secs ! j = (if j = k then secs ! k @ [l] else secs ! j)"
  by (simp add: append_line_def nth_list_update)

lemma length_resolve_tag [simp]:
  "length (sections (resolve_tag tw st tg)) = length (sections st)"
  by (cases tg) (simp add: Let_def)

lemma resolve_tag_emotion:
  "length (sections st) = 5 \<Longrightarrow>
   sections (resolve_tag tw st (w, k, v, l, p)) ! 1 =
     sections st ! 1 @ (if k = Emotion then [mk_line (start_time tw w) ''emotion'' (str_nat v)] else [])"
  by (cases k) (simp_all add: Let_def nth_append_line)

lemma resolve_tag_image:
  "length (sections st) = 5 \<Longrightarrow>
   sections (resolve_tag tw st (w, k, v, l, p)) ! 2 =
     sections st ! 2 @ (if k \<noteq> Emotion \<and> int l \<noteq> last_l_idx st
                        then [mk_line (start_time tw w) ''image'' (str_nat l)] else [])"
  by (cases k) (simp_all add: Let_def nth_append_line)

lemma resolve_tag_pose:
  "length (sections st) = 5 \<Longrightarrow>
   sections (resolve_tag tw st (w, k, v, l, p)) ! 3 =
     sections st ! 3 @ (if k \<noteq> Emotion \<and> int l \<noteq> last_l_idx st
                        then [mk_line (start_time tw w) ''pose'' (str_nat ((pose st + 1) mod 5))]
                        else [])"
  by (cases k) (simp_all add: Let_def nth_append_line)

lemma resolve_tag_paragraph:
  "length (sections st) = 5 \<Longrightarrow>
   sections (resolve_tag tw st (w, k, v, l, p)) ! 0 =
     sections st ! 0 @ (if k \<noteq> Emotion \<and> int p \<noteq> last_p_idx st
                        then [mk_line (start_time tw w) ''paragraph'' (str_nat p)] else [])"
  by (cases k) (simp_all add: Let_def nth_append_line)

lemma resolve_tag_phoneme:
  "length (sections st) = 5 \<Longrightarrow>
   sections (resolve_tag tw st (w, k, v, l, p)) ! 4 = sections st ! 4"
  by (cases k) (simp_all add: Let_def nth_append_line)

lemma resolve_tag_last_l:
  "last_l_idx (resolve_tag tw st (w, k, v, l, p)) = (if k \<noteq> Emotion then int l else last_l_idx st)"
  by (cases k) (simp_all add: Let_def)

lemma resolve_tag_last_p:
  "last_p_idx (resolve_tag tw st (w, k, v, l, p)) = (if k \<noteq> Emotion then int p else last_p_idx st)"
  by (cases k) (simp_all add: Let_def)

lemma resolve_tag_pose_state:
  "pose (resolve_tag tw st (w, k, v, l, p)) =
     (if k \<noteq> Emotion \<and> int l \<noteq> last_l_idx st then (pose st + 1) mod 5 else pose st)"
  by (cases k) (simp_all add: Let_def)

declare resolve_tag.simps [simp del]

lemmas resolve_tag_emotion' = resolve_tag_emotion [unfolded One_nat_def]

lemma resolve_tags_snoc:
  "resolve_tags tw (tgs @ [tg]) = resolve_tag tw (resolve_tags tw tgs) tg"
  by (simp add: resolve_tags_def)

lemma length_resolve_tags [simp]: "length (sections (resolve_tags tw tgs)) = 5"
  by (induction tgs rule: rev_induct) (simp_all add: resolve_tags_snoc, simp add: resolve_tags_def resolve_init_def)

subsection \<open>The mouth cues\<close>

lemma length_add_cues [simp]: "length (foldl add_cue secs cs) = length secs"
  by (induction cs arbitrary: secs) (simp_all add: add_cue_def)

lemma add_cues_nth:
  "length secs = 5 \<Longrightarrow>
   foldl add_cue secs cs ! j = (if j = 4 then secs ! 4 @ map cue_line cs else secs ! j)"
  by (induction cs arbitrary: secs) (simp_all add: add_cue_def nth_append_line)

subsection \<open>Invariants of the loop over the tags\<close>

lemma image_lines_snoc:
  "image_lines (tgs @ [(w, k, v, l, p)]) = image_lines tgs @ (if k \<noteq> Emotion then [l] else [])"
  by (simp add: image_lines_def tag_kind_def tag_line_def)

lemma resolve_init_sections:
  "sections resolve_init ! 0 = [''0.000,paragraph,0'']"
  "sections resolve_init ! 1 = [''0.000,emotion,0'']"
  "sections resolve_init ! 2 = [''0.000,image,0'']"
  "sections resolve_init ! 3 = [''0.000,pose,0'']"
  "sections resolve_init ! 4 = []"
  "sections resolve_init ! Suc 0 = [''0.000,emotion,0'']"
  by (simp_all add: resolve_init_def)

lemma resolve_tags_Nil: "resolve_tags tw [] = resolve_init"
  by (simp add: resolve_tags_def)

lemma baseline_vals:
  "line_val ''0.000,paragraph,0'' = ''0''"
  "line_val ''0.000,emotion,0'' = ''0''"
  "line_val ''0.000,image,0'' = ''0''"
  "line_val ''0.000,pose,0'' = ''0''"
  by (simp_all add: line_val_def)

lemma baseline_times:
  "line_time ''0.000,paragraph,0'' = 0"
  "line_time ''0.000,emotion,0'' = 0"
  "line_time ''0.000,image,0'' = 0"
  "line_time ''0.000,pose,0'' = 0"
  by (simp_all add: line_time_def Let_def startswith_def read_digits_def digit_val_def)

lemma resolve_tags_baseline:
  "\<exists>r0 r1 r2 r3.
     sections (resolve_tags tw tgs) ! 0 = ''0.000,paragraph,0'' # r0 \<and>
     sections (resolve_tags tw tgs) ! 1 = ''0.000,emotion,0'' # r1 \<and>
     sections (resolve_tags tw tgs) ! 2 = ''0.000,image,0'' # r2 \<and>
     sections (resolve_tags tw tgs) ! 3 = ''0.000,pose,0'' # r3"
proof (induction tgs rule: rev_induct)
  case Nil
  show ?case by (simp add: resolve_tags_Nil resolve_init_sections)
next
  case (snoc tg tgs)
  obtain w k v l p where tg: "tg = (w, k, v, l, p)" by (cases tg)
  from snoc show ?case
    by (auto simp: tg resolve_tags_snoc resolve_tag_paragraph resolve_tag_emotion'
        resolve_tag_image resolve_tag_pose)
qed

lemma resolve_tags_phoneme: "sections (resolve_tags tw tgs) ! 4 = []"
proof (induction tgs rule: rev_induct)
  case Nil
  show ?case by (simp add: resolve_tags_Nil resolve_init_sections)
next
  case (snoc tg tgs)
  then show ?case by (cases tg) (simp add: resolve_tags_snoc resolve_tag_phoneme)
qed

lemma resolve_tags_pose:
  "length (sections (resolve_tags tw tgs) ! 3) = length (sections (resolve_tags tw tgs) ! 2) \<and>
   Suc (pose (resolve_tags tw tgs)) mod 5 = length (sections (resolve_tags tw tgs) ! 2) mod 5 \<and>
   map line_val (sections (resolve_tags tw tgs) ! 3) =
     map (\<lambda>k. str_nat (k mod 5)) [0..<length (sections (resolve_tags tw tgs) ! 2)]"
proof (induction tgs rule: rev_induct)
  case Nil
  show ?case
    by (simp add: resolve_tags_Nil resolve_init_sections baseline_vals str_nat_small digit_char_def)
      (simp add: resolve_init_def)
next
  case (snoc tg tgs)
  obtain w k v l p where tg: "tg = (w, k, v, l, p)" by (cases tg)
  let ?st = "resolve_tags tw tgs"
  show ?case
  proof (cases "k \<noteq> Emotion \<and> int l \<noteq> last_l_idx ?st")
    case False
    then have "sections (resolve_tag tw ?st tg) ! 2 = sections ?st ! 2"
      "sections (resolve_tag tw ?st tg) ! 3 = sections ?st ! 3"
      "pose (resolve_tag tw ?st tg) = pose ?st"
      by (auto simp: tg resolve_tag_image resolve_tag_pose resolve_tag_pose_state)
    with snoc show ?thesis
      by (simp add: resolve_tags_snoc)
  next
    case True
    have m: "(pose ?st + 1) mod 5 = length (sections ?st ! 2) mod 5"
      using snoc by simp
    have v: "line_val (mk_line (start_time tw w) ''pose'' (str_nat ((pose ?st + 1) mod 5)))
        = str_nat (length (sections ?st ! 2) mod 5)"
      by (simp only: m line_val_mk_line_nat)
    have s: "Suc (length (sections ?st ! 2) mod 5) mod 5 = Suc (length (sections ?st ! 2)) mod 5"
      by (rule mod_Suc_eq)
    from snoc True show ?thesis
      by (simp add: tg resolve_tags_snoc resolve_tag_image resolve_tag_pose resolve_tag_pose_state
          line_val_mk_line_nat s m)
  qed
qed

lemma resolve_tags_image:
  "last_l_idx (resolve_tags tw tgs) =
     (if image_lines tgs = [] then - 1 else int (last (image_lines tgs))) \<and>
   map line_val (sections (resolve_tags tw tgs) ! 2) =
     ''0'' # map str_nat (remdups_adj (image_lines tgs))"
proof (induction tgs rule: rev_induct)
  case Nil
  show ?case
    by (simp add: resolve_tags_Nil resolve_init_sections baseline_vals image_lines_def)
      (simp add: resolve_init_def)
next
  case (snoc tg tgs)
  obtain w k v l p where tg: "tg = (w, k, v, l, p)" by (cases tg)
  let ?st = "resolve_tags tw tgs"
  let ?L = "image_lines tgs"
  show ?case
  proof (cases "k = Emotion")
    case True
    with snoc show ?thesis
      by (simp add: tg resolve_tags_snoc resolve_tag_image resolve_tag_last_l image_lines_snoc)
  next
    case False
    have r: "remdups_adj (?L @ [l]) =
        remdups_adj ?L @ (if int l \<noteq> last_l_idx ?st then [l] else [])"
    proof (cases ?L rule: rev_cases)
      case Nil
      with snoc show ?thesis by simp
    next
      case (snoc L0 x)
      have "remdups_adj (L0 @ [x, l]) = remdups_adj (L0 @ [x]) @ (if x = l then [] else [l])"
        by (rule remdups_adj_append_two)
      with snoc snoc.IH show ?thesis by auto
    qed
    from snoc False show ?thesis
      by (simp add: tg resolve_tags_snoc resolve_tag_image resolve_tag_last_l image_lines_snoc r
          line_val_mk_line_nat)
  qed
qed

subsection \<open>Invariants of the parser\<close>

lemma words_sorted_token: "words_sorted st \<Longrightarrow> words_sorted (process_token l st tok)"
  by (fastforce simp: words_sorted_def process_token_def Let_def sorted_append tag_word_def
      split: option.splits)

lemma words_sorted_tokens: "words_sorted st \<Longrightarrow> words_sorted (foldl (process_token l) st toks)"
  by (induction toks arbitrary: st) (simp_all add: words_sorted_token)

lemma words_sorted_line: "words_sorted st \<Longrightarrow> words_sorted (process_line st il)"
proof -
  assume a: "words_sorted st"
  obtain l line where il: "il = (l, line)" by (cases il)
  define st1 where "st1 = (if strip line = [] \<and> l > 0
    then st\<lparr>current_para_idx := current_para_idx st + 1\<rparr> else st)"
  define st2 where "st2 = foldl (process_token l) st1 (findall_tokens line)"
  have eq: "process_line st il = st2\<lparr>tags := tags st2 @
      [(current_word_idx st2, ImageAuto, l, l, current_para_idx st2)]\<rparr>"
    by (simp add: il process_line_def st1_def st2_def Let_def)
  have "words_sorted st1" using a by (simp add: st1_def words_sorted_def)
  then have "words_sorted st2"
    unfolding st2_def by (rule words_sorted_tokens)
  then show ?thesis
    by (simp add: eq words_sorted_def sorted_append tag_word_def)
qed

lemma words_sorted_lines: "words_sorted st \<Longrightarrow> words_sorted (foldl process_line st ils)"
  by (induction ils arbitrary: st) (simp_all add: words_sorted_line)

lemma parse_words_sorted: "sorted (map tag_word (snd (parse_annotated_text text)))"
proof -
  have "words_sorted parse_init" by (simp add: words_sorted_def parse_init_def)
  then have "words_sorted (parse_state text)"
    unfolding parse_state_def by (rule words_sorted_lines)
  then show ?thesis by (simp add: parse_annotated_text_def words_sorted_def)
qed

text \<open>The tags a line adds all carry the index of that line.\<close>

lemma token_tags:
  "\<exists>ex. tags (process_token l st tok) = tags st @ ex \<and>
     (\<forall>tg \<in> set ex. tag_line tg = l \<and> tag_kind tg \<noteq> ImageAuto)"
  by (auto simp: process_token_def Let_def tag_line_def tag_kind_def split: option.splits)

lemma tokens_tags:
  "\<exists>ex. tags (foldl (process_token l) st toks) = tags st @ ex \<and>
     (\<forall>tg \<in> set ex. tag_line tg = l \<and> tag_kind tg \<noteq> ImageAuto)"
proof (induction toks arbitrary: st)
  case Nil
  show ?case by simp
next
  case (Cons tok toks)
  obtain e1 where e1: "tags (process_token l st tok) = tags st @ e1"
    "\<forall>tg \<in> set e1. tag_line tg = l \<and> tag_kind tg \<noteq> ImageAuto"
    using token_tags by blast
  obtain e2 where e2: "tags (foldl (process_token l) (process_token l st tok) toks)
      = tags (process_token l st tok) @ e2"
    "\<forall>tg \<in> set e2. tag_line tg = l \<and> tag_kind tg \<noteq> ImageAuto"
    using Cons by blast
  show ?case
    by (rule exI [of _ "e1 @ e2"]) (use e1 e2 in auto)
qed

lemma line_tags:
  "\<exists>ex w p. tags (process_line st (l, line)) = tags st @ ex @ [(w, ImageAuto, l, l, p)]
      \<and> (\<forall>tg \<in> set ex. tag_line tg = l \<and> tag_kind tg \<noteq> ImageAuto)"
proof -
  define st1 where "st1 = (if strip line = [] \<and> l > 0
    then st\<lparr>current_para_idx := current_para_idx st + 1\<rparr> else st)"
  have t1: "tags st1 = tags st" by (simp add: st1_def)
  define st2 where "st2 = foldl (process_token l) st1 (findall_tokens line)"
  have eq: "process_line st (l, line) = st2\<lparr>tags := tags st2 @
      [(current_word_idx st2, ImageAuto, l, l, current_para_idx st2)]\<rparr>"
    by (simp add: process_line_def st1_def st2_def Let_def)
  obtain ex where ex: "tags st2 = tags st1 @ ex"
    "\<forall>tg \<in> set ex. tag_line tg = l \<and> tag_kind tg \<noteq> ImageAuto"
    unfolding st2_def using tokens_tags by blast
  show ?thesis
    using ex by (simp add: eq t1)
qed

lemma image_lines_append: "image_lines (a @ b) = image_lines a @ image_lines b"
  by (simp add: image_lines_def)

lemma image_lines_const:
  "\<forall>tg \<in> set ex. tag_line tg = l \<Longrightarrow> image_lines ex = replicate (length (image_lines ex)) l"
  by (induction ex) (auto simp: image_lines_def)

lemma line_image_lines:
  "\<exists>m. image_lines (tags (process_line st (l, line))) = image_lines (tags st) @ replicate (Suc m) l"
proof -
  obtain ex w p where ex0: "tags (process_line st (l, line)) = tags st @ ex @ [(w, ImageAuto, l, l, p)]"
    "\<forall>tg \<in> set ex. tag_line tg = l \<and> tag_kind tg \<noteq> ImageAuto"
    using line_tags by blast
  then have ex: "tags (process_line st (l, line)) = tags st @ ex @ [(w, ImageAuto, l, l, p)]"
    "\<forall>tg \<in> set ex. tag_line tg = l"
    by simp_all
  have "image_lines [(w, ImageAuto, l, l, p)] = [l]"
    by (simp add: image_lines_def tag_kind_def tag_line_def)
  then have "image_lines (tags (process_line st (l, line)))
      = image_lines (tags st) @ replicate (length (image_lines ex)) l @ [l]"
    using image_lines_const [OF ex(2)] by (simp add: ex(1) image_lines_append)
  then show ?thesis
    by (metis replicate_append_same replicate_Suc)
qed

lemma line_auto_lines:
  "auto_lines (tags (process_line st (l, line))) = auto_lines (tags st) @ [l]"
proof -
  obtain ex w p where ex: "tags (process_line st (l, line)) = tags st @ ex @ [(w, ImageAuto, l, l, p)]"
    "\<forall>tg \<in> set ex. tag_line tg = l \<and> tag_kind tg \<noteq> ImageAuto"
    using line_tags by blast
  have "filter (\<lambda>tg. tag_kind tg = ImageAuto) ex = []"
    using ex(2) by (simp add: filter_empty_conv)
  then show ?thesis
    by (simp add: auto_lines_def ex(1) tag_kind_def tag_line_def)
qed

lemma lines_auto_lines:
  "auto_lines (tags (foldl process_line parse_init (enumerate 0 ls))) = [0..<length ls]"
  by (induction ls rule: rev_induct)
    (simp_all add: enumerate_append_eq line_auto_lines, simp add: parse_init_def auto_lines_def)

lemma parse_auto_lines:
  "auto_lines (snd (parse_annotated_text text)) = [0..<length (split_on newline text)]"
  by (simp add: parse_annotated_text_def parse_state_def lines_auto_lines)

lemma remdups_adj_next_line:
  assumes "remdups_adj L = [0..<n]"
  shows "remdups_adj (L @ replicate (Suc m) n) = [0..<Suc n]"
proof (cases "L = []")
  case True
  with assms have "[0..<n] = []" by simp
  then have "n = 0" by simp
  with True show ?thesis
    using remdups_adj_replicate [of "Suc m" "0::nat"] by (simp del: replicate_Suc)
next
  case False
  then have n: "n > 0" using assms by (cases n) auto
  have "last L = last (remdups_adj L)" by simp
  also have "\<dots> = n - 1" using n by (simp add: assms)
  finally have l: "last L = n - 1" .
  have "dropWhile (\<lambda>y. y = last L) (replicate (Suc m) n) = replicate (Suc m) n"
    using n l by simp
  then have "remdups_adj (L @ replicate (Suc m) n) = remdups_adj L @ remdups_adj (replicate (Suc m) n)"
    using remdups_adj_append'' [OF False, of "replicate (Suc m) n"] by simp
  then show ?thesis
    using remdups_adj_replicate [of "Suc m" n] by (simp add: assms del: replicate_Suc)
qed

lemma lines_image_lines:
  "remdups_adj (image_lines (tags (foldl process_line parse_init (enumerate 0 ls)))) = [0..<length ls]"
proof (induction ls rule: rev_induct)
  case Nil
  show ?case by (simp add: parse_init_def image_lines_def)
next
  case (snoc line ls)
  let ?st = "foldl process_line parse_init (enumerate 0 ls)"
  obtain m where m: "image_lines (tags (process_line ?st (length ls, line)))
      = image_lines (tags ?st) @ replicate (Suc m) (length ls)"
    using line_image_lines by blast
  show ?case
    using remdups_adj_next_line [OF snoc, of m]
    by (simp add: enumerate_append_eq m)
qed

lemma parse_image_lines:
  "remdups_adj (image_lines (snd (parse_annotated_text text)))
     = [0..<length (split_on newline text)]"
  by (simp add: parse_annotated_text_def parse_state_def lines_image_lines)

subsection \<open>Timestamps in order\<close>

lemma start_time_mono:
  assumes "chronological tw" and "i \<le> j"
  shows "start_time tw i \<le> start_time tw j"
proof (cases "j < length tw")
  case True
  then have "map w_start tw ! i \<le> map w_start tw ! j"
    using assms by (intro sorted_nth_mono) (simp_all add: chronological_def)
  with True assms(2) show ?thesis by (simp add: start_time_def)
next
  case False
  show ?thesis
  proof (cases "i < length tw")
    case True
    then have ne: "tw \<noteq> []" by auto
    have "map w_start tw ! i \<le> map w_start tw ! (length tw - 1)"
      using assms True by (intro sorted_nth_mono) (simp_all add: chronological_def)
    then have "w_start (tw ! i) \<le> w_start (last tw)"
      using True ne by (simp add: last_conv_nth)
    also have "\<dots> \<le> w_end (last tw)" using assms ne by (simp add: chronological_def)
    finally show ?thesis using True \<open>\<not> j < length tw\<close> ne by (simp add: start_time_def)
  next
    case False
    with \<open>\<not> j < length tw\<close> show ?thesis by (simp add: start_time_def)
  qed
qed

lemma start_time_nonneg:
  assumes "chronological tw" and "starts_nonneg tw"
  shows "0 \<le> start_time tw i"
proof (cases "i < length tw")
  case True
  then have "tw ! i \<in> set tw" by simp
  with assms(2) have "0 \<le> w_start (tw ! i)"
    by (simp add: starts_nonneg_def list_all_iff)
  with True show ?thesis by (simp add: start_time_def)
next
  case False
  show ?thesis
  proof (cases "tw = []")
    case True
    then show ?thesis by (simp add: start_time_def)
  next
    case ne: False
    then have "last tw \<in> set tw" by simp
    with assms(2) have "0 \<le> w_start (last tw)"
      by (simp add: starts_nonneg_def list_all_iff)
    also have "\<dots> \<le> w_end (last tw)" using assms(1) ne by (simp add: chronological_def)
    finally show ?thesis using False ne by (simp add: start_time_def)
  qed
qed

lemma times_upto_step:
  "times_upto T sec \<Longrightarrow> T \<le> t \<Longrightarrow>
     times_upto t (sec @ (if c then [mk_line t name v] else []))"
  by (auto simp: times_upto_def sorted_append line_time_mk_line)

lemma resolve_tags_times:
  assumes "sorted (map (tag_time tw) tgs)" and "\<forall>tg \<in> set tgs. 0 \<le> tag_time tw tg"
  shows "\<forall>k < 4. times_upto (last (0 # map (tag_time tw) tgs)) (sections (resolve_tags tw tgs) ! k)"
  using assms
proof (induction tgs rule: rev_induct)
  case Nil
  have "times_upto 0 (sections resolve_init ! k)" if "k < 4" for k
  proof -
    from that consider "k = 0" | "k = 1" | "k = 2" | "k = 3" by linarith
    then show ?thesis
      by cases (simp_all add: resolve_init_sections times_upto_def baseline_times)
  qed
  then show ?case by (simp add: resolve_tags_Nil)
next
  case (snoc tg tgs)
  obtain w kd v l p where tg: "tg = (w, kd, v, l, p)" by (cases tg)
  let ?st = "resolve_tags tw tgs"
  let ?T = "last (0 # map (tag_time tw) tgs)"
  let ?t = "start_time tw w"
  have t: "tag_time tw tg = ?t" by (simp add: tg tag_time_def tag_word_def)
  from snoc.prems have s: "sorted (map (tag_time tw) tgs)"
    and le: "\<forall>x \<in> set tgs. tag_time tw x \<le> ?t"
    and nn: "\<forall>x \<in> set tgs. 0 \<le> tag_time tw x" and nt: "0 \<le> ?t"
    by (simp_all add: sorted_append t)
  have T: "?T \<le> ?t" using le nt by (cases tgs rule: rev_cases) auto
  have ih: "times_upto ?T (sections ?st ! k)" if "k < 4" for k
    using snoc.IH [OF s nn] that by blast
  have l: "last (0 # map (tag_time tw) (tgs @ [tg])) = ?t" by (simp add: t)
  have "times_upto ?t (sections (resolve_tag tw ?st tg) ! k)" if "k < 4" for k
  proof -
    from that consider "k = 0" | "k = 1" | "k = 2" | "k = 3" by linarith
    then show ?thesis
    proof cases
      case 1
      show ?thesis unfolding 1 tg
        by (simp only: resolve_tag_paragraph [OF length_resolve_tags])
          (rule times_upto_step [OF ih T], simp)
    next
      case 2
      show ?thesis unfolding 2 tg
        by (simp only: resolve_tag_emotion [OF length_resolve_tags])
          (rule times_upto_step [OF ih T], simp)
    next
      case 3
      show ?thesis unfolding 3 tg
        by (simp only: resolve_tag_image [OF length_resolve_tags])
          (rule times_upto_step [OF ih T], simp)
    next
      case 4
      show ?thesis unfolding 4 tg
        by (simp only: resolve_tag_pose [OF length_resolve_tags])
          (rule times_upto_step [OF ih T], simp)
    qed
  qed
  then show ?case by (simp only: l resolve_tags_snoc) blast
qed

lemma parse_times_sorted:
  "chronological tw \<Longrightarrow> sorted (map (tag_time tw) (snd (parse_annotated_text text)))"
proof -
  assume c: "chronological tw"
  have "sorted (map (tag_time tw) tgs)" if "sorted (map tag_word tgs)" for tgs
    using that
  proof (induction tgs)
    case Nil
    show ?case by simp
  next
    case (Cons a tgs)
    then show ?case by (auto simp: tag_time_def intro: start_time_mono [OF c])
  qed
  then show ?thesis using parse_words_sorted by blast
qed

lemma raw_sections_phoneme: "raw_sections text tw cs ! 4 = map cue_line cs"
  by (simp add: raw_sections_def add_cues_nth resolve_tags_phoneme)

lemma raw_sections_nth:
  "j \<noteq> 4 \<Longrightarrow> raw_sections text tw cs ! j
     = sections (resolve_tags tw (snd (parse_annotated_text text))) ! j"
  by (simp add: raw_sections_def add_cues_nth)

lemma length_raw_sections [simp]: "length (raw_sections text tw cs) = 5"
  by (simp add: raw_sections_def)

lemma parse_times_nonneg:
  "chronological tw \<Longrightarrow> starts_nonneg tw \<Longrightarrow>
     \<forall>tg \<in> set (snd (parse_annotated_text text)). 0 \<le> tag_time tw tg"
  by (simp add: tag_time_def start_time_nonneg)

lemma raw_sections_sorted:
  assumes "chronological tw" and "starts_nonneg tw" and "sorted (map cue_start cs)" and "k < 5"
  shows "sorted (map line_time (raw_sections text tw cs ! k))"
proof (cases "k = 4")
  case True
  have "map line_time (map cue_line cs) = map cue_start cs"
    by (induction cs) (simp_all add: cue_line_def line_time_mk_line)
  with assms(3) have "sorted (map line_time (map cue_line cs))" by (simp only:)
  then show ?thesis by (simp only: True raw_sections_phoneme)
next
  case False
  with assms(4) have "k < 4" by simp
  have "sorted (map (tag_time tw) (snd (parse_annotated_text text)))"
    using assms(1) by (rule parse_times_sorted)
  from resolve_tags_times [OF this parse_times_nonneg [OF assms(1,2)]] \<open>k < 4\<close> False
  show ?thesis
    by (simp add: raw_sections_nth times_upto_def)
qed

lemma final_sections_nth:
  "k < 5 \<Longrightarrow> final_sections text tw cs ! k = unique_lines (raw_sections text tw cs ! k)"
  by (simp add: final_sections_def)

lemma length_final_sections [simp]: "length (final_sections text tw cs) = 5"
  by (simp add: final_sections_def)

lemma final_sections_sorted:
  assumes "chronological tw" and "starts_nonneg tw" and "sorted (map cue_start cs)" and "k < 5"
  shows "sorted (map line_time (final_sections text tw cs ! k))"
  using raw_sections_sorted [OF assms] assms(4)
  by (simp add: final_sections_nth unique_lines_def unique_from_sorted)

lemma final_sections_distinct_adj:
  "k < 5 \<Longrightarrow> distinct_adj (map line_val (final_sections text tw cs ! k))"
  by (simp add: final_sections_nth unique_lines_vals)

lemma pose_values_distinct_adj:
  "distinct_adj (map (\<lambda>k. str_nat (k mod 5)) [0..<m])"
proof -
  have "str_nat (i mod 5) \<noteq> str_nat (Suc i mod 5)" for i
  proof
    assume "str_nat (i mod 5) = str_nat (Suc i mod 5)"
    then have "i mod 5 = Suc i mod 5" by (rule str_nat_inj)
    then show False by presburger
  qed
  then show ?thesis
    by (simp add: distinct_adj_conv_nth)
qed

lemma final_pose_length:
  "length (final_sections text tw cs ! 3) = length (raw_sections text tw cs ! 3)"
proof -
  have "map line_val (raw_sections text tw cs ! 3) =
      map (\<lambda>k. str_nat (k mod 5)) [0..<length (raw_sections text tw cs ! 2)]"
    using resolve_tags_pose [of tw "snd (parse_annotated_text text)"]
    by (simp add: raw_sections_nth)
  then have "distinct_adj (map line_val (raw_sections text tw cs ! 3))"
    by (simp only: pose_values_distinct_adj)
  then show ?thesis
    by (simp add: final_sections_nth unique_lines_id)
qed

lemma unique_from_keep_changes:
  "unique_from (Some (line_val prev)) ls = keep_changes prev ls"
  by (induction ls arbitrary: prev) (simp_all add: Let_def)

lemma shape_of_range:
  "shape_of code \<in> {''m'', ''t'', ''a'', ''u'', ''au'', ''f'', ''y''}"
  by (simp add: shape_of_def RHUBARB_MAP_def)

lemma shape_of_no_comma: "CHR '','' \<notin> set (shape_of code)"
  using shape_of_range [of code] by auto

lemma new_lines_append: "drop (length xs) (xs @ ys) = ys"
  by simp

lemma add_cues_explicit:
  "foldl add_cue [a, b, c, d, e] cs = [a, b, c, d, e @ map cue_line cs]"
  by (induction cs arbitrary: e) (simp_all add: add_cue_def append_line_def)

lemma parse_empty: "parse_annotated_text '''' = ([], [(0, ImageAuto, 0, 0, 0)])"
  by code_simp

lemma resolve_single_auto:
  "sections (resolve_tags tw [(0, ImageAuto, 0, 0, 0)]) =
     [[''0.000,paragraph,0'', mk_line (start_time tw 0) ''paragraph'' ''0''],
      [''0.000,emotion,0''],
      [''0.000,image,0'', mk_line (start_time tw 0) ''image'' ''0''],
      [''0.000,pose,0'', mk_line (start_time tw 0) ''pose'' ''1''],
      []]"
  by (simp add: resolve_tags_def resolve_tag.simps resolve_init_def append_line_def Let_def
      str_nat_small digit_char_def)

lemma unique_pair_same:
  "CHR '','' \<notin> set v \<Longrightarrow> line_val a = v \<Longrightarrow> unique_lines [a, mk_line t name v] = [a]"
  by (simp add: unique_lines_def Let_def line_val_mk_line)

lemma unique_pair_diff:
  "CHR '','' \<notin> set v \<Longrightarrow> line_val a \<noteq> v \<Longrightarrow>
     unique_lines [a, mk_line t name v] = [a, mk_line t name v]"
  by (simp add: unique_lines_def Let_def line_val_mk_line)

lemma match_bracket_closed:
  assumes "body \<noteq> []" and "r \<notin> set body"
  shows "match_bracket l r (l # body @ r # rest) = Some (l # body @ [r], rest)"
proof -
  have t: "takeWhile (\<lambda>x. x \<noteq> r) (body @ r # rest) = body"
    using assms(2) by (auto simp: takeWhile_tail)
  have "dropWhile (\<lambda>x. x \<noteq> r) (body @ r # rest) = dropWhile (\<lambda>x. x \<noteq> r) (r # rest)"
    using assms(2) by (intro dropWhile_append2) auto
  then have d: "dropWhile (\<lambda>x. x \<noteq> r) (body @ r # rest) = r # rest" by simp
  show ?thesis using assms(1) by (simp add: match_bracket_def Let_def t d)
qed

lemma parse_shout: "snd (parse_annotated_text ''<shout>'') = [(0, ImageAuto, 0, 0, 0)]"
  by code_simp

lemma resolve_one_line:
  "last_l_idx (resolve_tags [] [(0, ImageAuto, 0, 0, 0)]) = 0"
  "pose (resolve_tags [] [(0, ImageAuto, 0, 0, 0)]) = 1"
  by (simp_all add: resolve_tags_def resolve_tag.simps resolve_init_def Let_def)

section \<open>The claims\<close>

subsection \<open>C1\<close>

text \<open>
  Claim C1, as the code has it. In the schedule as it is written, the paragraph, emotion,
  image and pose lists each begin with a synthetic event at time 0.000 that carries the
  value 0, before any event of a tag, for every script, timed-word list and cue list.
  The phoneme list has no synthetic event: it is the compacted list of the cue events
  and nothing else.
\<close>

theorem C1_baselines:
  "take 1 (final_sections text tw cs ! 0) = [''0.000,paragraph,0''] \<and>
   take 1 (final_sections text tw cs ! 1) = [''0.000,emotion,0''] \<and>
   take 1 (final_sections text tw cs ! 2) = [''0.000,image,0''] \<and>
   take 1 (final_sections text tw cs ! 3) = [''0.000,pose,0''] \<and>
   map line_time [''0.000,paragraph,0'', ''0.000,emotion,0'', ''0.000,image,0'', ''0.000,pose,0'']
     = [0, 0, 0, 0] \<and>
   final_sections text tw cs ! 4 = unique_lines (map cue_line cs)"
proof -
  obtain r0 r1 r2 r3 where r:
    "sections (resolve_tags tw (snd (parse_annotated_text text))) ! 0 = ''0.000,paragraph,0'' # r0"
    "sections (resolve_tags tw (snd (parse_annotated_text text))) ! 1 = ''0.000,emotion,0'' # r1"
    "sections (resolve_tags tw (snd (parse_annotated_text text))) ! 2 = ''0.000,image,0'' # r2"
    "sections (resolve_tags tw (snd (parse_annotated_text text))) ! 3 = ''0.000,pose,0'' # r3"
    using resolve_tags_baseline by blast
  note r' = r [unfolded One_nat_def]
  show ?thesis
    by (simp add: final_sections_nth raw_sections_nth raw_sections_phoneme r r' unique_lines_Cons
        baseline_times)
qed

text \<open>
  Claim C1 as stated fails for the phoneme list: with no cue it is empty, and with the
  single cue B at 0.250 its first event is that cue's, at time 0.250.
\<close>

theorem C1_counterexample:
  "final_sections '''' [] [] ! 4 = [] \<and>
   final_sections '''' [] [\<lparr>cue_start = 250, cue_value = ''B''\<rparr>] ! 4 = [''0.250,phoneme,t'']"
  by (simp add: final_sections_nth raw_sections_phoneme unique_lines_def cue_line_def
      shape_of_def RHUBARB_MAP_def mk_line_def time_str_def fixed3_def str_nat_small digit_char_def Let_def)

subsection \<open>C2\<close>

text \<open>
  Claim C2, as the code has it. For the empty script the parser returns no word and
  exactly one tag, the image\_auto tag of line 0 (word index 0, paragraph 0), since
  splitting the empty text yields one empty line. For every timed-word list and cue
  list the written paragraph, emotion and image lists hold their baseline line only, the
  pose list holds its baseline and the pose-1 line at the time looked up for word
  index 0, and the phoneme list holds the compacted cue lines. With no timed word and no
  cue the document is these five sections, separated by four SECTION lines, the phoneme
  section being one empty line, and nothing after it.
\<close>

theorem C2_empty_script:
  "parse_annotated_text '''' = ([], [(0, ImageAuto, 0, 0, 0)]) \<and>
   final_sections '''' tw cs =
     [[''0.000,paragraph,0''], [''0.000,emotion,0''], [''0.000,image,0''],
      [''0.000,pose,0'', mk_line (start_time tw 0) ''pose'' ''1''],
      unique_lines (map cue_line cs)] \<and>
   schedule '''' [] [] =
     ''0.000,paragraph,0'' @ [newline] @ ''SECTION'' @ [newline] @
     ''0.000,emotion,0'' @ [newline] @ ''SECTION'' @ [newline] @
     ''0.000,image,0'' @ [newline] @ ''SECTION'' @ [newline] @
     ''0.000,pose,0'' @ [newline] @ ''0.000,pose,1'' @ [newline] @ ''SECTION'' @ [newline] @
     [newline]"
proof (intro conjI)
  show "parse_annotated_text '''' = ([], [(0, ImageAuto, 0, 0, 0)])" by (rule parse_empty)
  show "final_sections '''' tw cs =
     [[''0.000,paragraph,0''], [''0.000,emotion,0''], [''0.000,image,0''],
      [''0.000,pose,0'', mk_line (start_time tw 0) ''pose'' ''1''],
      unique_lines (map cue_line cs)]"
    by (simp add: final_sections_def raw_sections_def parse_empty resolve_single_auto
        add_cues_explicit unique_pair_same unique_pair_diff baseline_vals)
      (simp add: unique_lines_def)
  show "schedule '''' [] [] =
     ''0.000,paragraph,0'' @ [newline] @ ''SECTION'' @ [newline] @
     ''0.000,emotion,0'' @ [newline] @ ''SECTION'' @ [newline] @
     ''0.000,image,0'' @ [newline] @ ''SECTION'' @ [newline] @
     ''0.000,pose,0'' @ [newline] @ ''0.000,pose,1'' @ [newline] @ ''SECTION'' @ [newline] @
     [newline]"
    by code_simp
qed

text \<open>
  Claim C2 as stated fails: the tag list of the empty script is not empty, and with no
  timed word and no cue the five written lists hold 1, 1, 1, 2 and 0 lines.
\<close>

theorem C2_counterexample:
  "snd (parse_annotated_text '''') = [(0, ImageAuto, 0, 0, 0)] \<and>
   map length (final_sections '''' [] []) = [1, 1, 1, 2, 0]"
  by code_simp

subsection \<open>C3\<close>

text \<open>
  Claim C3. The time of a tag with word index \<open>i\<close> is the start of the timed word
  \<open>i\<close> when there is one; otherwise the end of the last timed word when the list is
  not empty; otherwise 0, printed as 0.000. Every line the resolver appends for the tag,
  in any of the five lists and from any state the loop reaches, carries that time.
\<close>

theorem C3_tag_time:
  "(i < length tw \<longrightarrow> start_time tw i = w_start (tw ! i)) \<and>
   (\<not> i < length tw \<and> tw \<noteq> [] \<longrightarrow> start_time tw i = w_end (last tw)) \<and>
   (tw = [] \<longrightarrow> start_time tw i = 0) \<and>
   time_str 0 = ''0.000'' \<and>
   (\<forall>k < 5. list_all (\<lambda>ln. line_time ln = start_time tw i)
      (drop (length (sections (resolve_tags tw tgs) ! k))
         (sections (resolve_tag tw (resolve_tags tw tgs) (i, kd, v, l, p)) ! k)))"
proof (intro conjI allI impI)
  show "start_time tw i = w_start (tw ! i)" if "i < length tw"
    using that by (simp add: start_time_def)
  show "start_time tw i = w_end (last tw)" if "\<not> i < length tw \<and> tw \<noteq> []"
    using that by (simp add: start_time_def)
  show "start_time tw i = 0" if "tw = []"
    using that by (simp add: start_time_def)
  show "time_str 0 = ''0.000''"
    by (rule time_str_zero)
  fix k :: nat
  assume "k < 5"
  then consider "k = 0" | "k = 1" | "k = 2" | "k = 3" | "k = 4" by linarith
  then show "list_all (\<lambda>ln. line_time ln = start_time tw i)
      (drop (length (sections (resolve_tags tw tgs) ! k))
         (sections (resolve_tag tw (resolve_tags tw tgs) (i, kd, v, l, p)) ! k))"
  proof cases
    case 1
    show ?thesis unfolding 1
      by (simp only: resolve_tag_paragraph [OF length_resolve_tags] new_lines_append)
        (simp add: line_time_mk_line)
  next
    case 2
    show ?thesis unfolding 2
      by (simp only: resolve_tag_emotion [OF length_resolve_tags] new_lines_append)
        (simp add: line_time_mk_line)
  next
    case 3
    show ?thesis unfolding 3
      by (simp only: resolve_tag_image [OF length_resolve_tags] new_lines_append)
        (simp add: line_time_mk_line)
  next
    case 4
    show ?thesis unfolding 4
      by (simp only: resolve_tag_pose [OF length_resolve_tags] new_lines_append)
        (simp add: line_time_mk_line)
  next
    case 5
    show ?thesis unfolding 5
      by (simp only: resolve_tag_phoneme [OF length_resolve_tags]) simp
  qed
qed

text \<open>
  The three cases of C3 on two timed words, and the line appended for an emotion tag at
  word index 1.
\<close>

theorem C3_tag_time_witness:
  "(1::nat) < length [\<lparr>w_start = 0, w_end = 500\<rparr>, \<lparr>w_start = 500, w_end = 1000\<rparr>] \<and>
   start_time [\<lparr>w_start = 0, w_end = 500\<rparr>, \<lparr>w_start = 500, w_end = 1000\<rparr>] 1 = 500 \<and>
   \<not> (5::nat) < length [\<lparr>w_start = 0, w_end = 500\<rparr>, \<lparr>w_start = 500, w_end = 1000\<rparr>] \<and>
   start_time [\<lparr>w_start = 0, w_end = 500\<rparr>, \<lparr>w_start = 500, w_end = 1000\<rparr>] 5 = 1000 \<and>
   start_time [] 3 = 0 \<and>
   (1::nat) < 5 \<and>
   list_all (\<lambda>ln. line_time ln = 500)
     (drop (length (sections (resolve_tags
              [\<lparr>w_start = 0, w_end = 500\<rparr>, \<lparr>w_start = 500, w_end = 1000\<rparr>] []) ! 1))
        (sections (resolve_tag [\<lparr>w_start = 0, w_end = 500\<rparr>, \<lparr>w_start = 500, w_end = 1000\<rparr>]
           (resolve_tags [\<lparr>w_start = 0, w_end = 500\<rparr>, \<lparr>w_start = 500, w_end = 1000\<rparr>] [])
           (1, Emotion, 3, 0, 0)) ! 1))"
proof -
  let ?tw = "[\<lparr>w_start = 0, w_end = 500\<rparr>, \<lparr>w_start = 500, w_end = 1000\<rparr>]"
  note a = C3_tag_time [of 1 ?tw "[]" Emotion 3 0 0]
  note b = C3_tag_time [of 5 ?tw "[]" Emotion 3 0 0]
  note c = C3_tag_time [of 3 "[]" "[]" Emotion 3 0 0]
  have h1: "(1::nat) < length ?tw" by simp
  have h5: "\<not> (5::nat) < length ?tw \<and> ?tw \<noteq> []" by simp
  from a h1 have s1: "start_time ?tw 1 = w_start (?tw ! 1)" by blast
  from b h5 have s5: "start_time ?tw 5 = w_end (last ?tw)" by blast
  from c have s3: "start_time [] 3 = 0" by blast
  from a have "\<forall>k<5. list_all (\<lambda>ln. line_time ln = start_time ?tw 1)
      (drop (length (sections (resolve_tags ?tw []) ! k))
         (sections (resolve_tag ?tw (resolve_tags ?tw []) (1, Emotion, 3, 0, 0)) ! k))"
    by blast
  then have "list_all (\<lambda>ln. line_time ln = start_time ?tw 1)
      (drop (length (sections (resolve_tags ?tw []) ! 1))
         (sections (resolve_tag ?tw (resolve_tags ?tw []) (1, Emotion, 3, 0, 0)) ! 1))"
    by simp
  with s1 s5 s3 show ?thesis by simp
qed

subsection \<open>C4\<close>

text \<open>
  Claim C4, as the code has it. For every script, timed-word list and cue list, no
  written list has two adjacent events of equal value. When the timed words are in
  chronological order, none of them starts before time zero, and the cues are in the
  order of their starts, every written list is non-decreasing in time. The code never
  sorts, so the order of the times is the order of its inputs, and every tag-driven list
  begins with a baseline at 0.000, which a negative start would precede.
\<close>

theorem C4_ordered_distinct:
  "list_all (\<lambda>sec. distinct_adj (map line_val sec)) (final_sections text tw cs) \<and>
   (chronological tw \<and> starts_nonneg tw \<and> sorted (map cue_start cs) \<longrightarrow>
      list_all (\<lambda>sec. sorted (map line_time sec)) (final_sections text tw cs))"
  by (simp add: list_all_length final_sections_distinct_adj final_sections_sorted)

text \<open>
  C4 on a script with an emotion tag, two timed words with non-negative starts in
  order, and two cues in order.
\<close>

theorem C4_ordered_distinct_witness:
  "chronological [\<lparr>w_start = 0, w_end = 500\<rparr>, \<lparr>w_start = 500, w_end = 1000\<rparr>] \<and>
   starts_nonneg [\<lparr>w_start = 0, w_end = 500\<rparr>, \<lparr>w_start = 500, w_end = 1000\<rparr>] \<and>
   sorted (map cue_start [\<lparr>cue_start = 0, cue_value = ''X''\<rparr>, \<lparr>cue_start = 100, cue_value = ''B''\<rparr>]) \<and>
   list_all (\<lambda>sec. sorted (map line_time sec))
     (final_sections ''<happy> a b''
        [\<lparr>w_start = 0, w_end = 500\<rparr>, \<lparr>w_start = 500, w_end = 1000\<rparr>]
        [\<lparr>cue_start = 0, cue_value = ''X''\<rparr>, \<lparr>cue_start = 100, cue_value = ''B''\<rparr>])"
proof -
  have h: "chronological [\<lparr>w_start = 0, w_end = 500\<rparr>, \<lparr>w_start = 500, w_end = 1000\<rparr>] \<and>
    starts_nonneg [\<lparr>w_start = 0, w_end = 500\<rparr>, \<lparr>w_start = 500, w_end = 1000\<rparr>] \<and>
    sorted (map cue_start [\<lparr>cue_start = 0, cue_value = ''X''\<rparr>, \<lparr>cue_start = 100, cue_value = ''B''\<rparr>])"
    by (simp add: chronological_def starts_nonneg_def)
  with C4_ordered_distinct [of "''<happy> a b''"
      "[\<lparr>w_start = 0, w_end = 500\<rparr>, \<lparr>w_start = 500, w_end = 1000\<rparr>]"
      "[\<lparr>cue_start = 0, cue_value = ''X''\<rparr>, \<lparr>cue_start = 100, cue_value = ''B''\<rparr>]"]
  show ?thesis by blast
qed

text \<open>
  Claim C4 as stated fails for a timed-word list that is out of order: with the starts
  2.000 and 1.000 the written emotion list has the times 0.000, 2.000, 1.000. It also
  fails for a single word that starts at -0.500: the written emotion list is the
  baseline at 0.000 followed by the event at -0.500.
\<close>

theorem C4_counterexample:
  "\<not> sorted (map line_time
      (final_sections ''<happy> a <sad> b''
         [\<lparr>w_start = 2000, w_end = 2500\<rparr>, \<lparr>w_start = 1000, w_end = 1500\<rparr>] [] ! 1)) \<and>
   final_sections ''<happy> a'' [\<lparr>w_start = - 500, w_end = 200\<rparr>] [] ! 1 =
     [''0.000,emotion,0'', ''-0.500,emotion,1''] \<and>
   \<not> sorted (map line_time
      (final_sections ''<happy> a'' [\<lparr>w_start = - 500, w_end = 200\<rparr>] [] ! 1))"
  by code_simp

subsection \<open>C5\<close>

text \<open>
  Claim C5. After any tag list, the values of the pose list are 0, 1, 2, 3, 4, 0, ...:
  the event at position \<open>k\<close> has the value \<open>k mod 5\<close>, position 0 being the
  baseline, so the pose of the \<open>k\<close>-th accepted image transition is \<open>k mod 5\<close>
  whatever the line indices are. The pose list is as long as the image list, which has
  one event per run of equal consecutive line indices among the image and image\_auto
  tags. A tag whose line index equals the last triggering one leaves the pose state and
  the pose list as they are; an image or image\_auto tag with another line index
  advances the pose by one modulo 5.
\<close>

theorem C5_pose_cycle:
  "map line_val (sections (resolve_tags tw tgs) ! 3)
     = map (\<lambda>k. str_nat (k mod 5)) [0..<length (sections (resolve_tags tw tgs) ! 2)] \<and>
   length (sections (resolve_tags tw tgs) ! 3) = length (sections (resolve_tags tw tgs) ! 2) \<and>
   length (sections (resolve_tags tw tgs) ! 2) = Suc (length (remdups_adj (image_lines tgs))) \<and>
   (int (tag_line tg) = last_l_idx (resolve_tags tw tgs) \<longrightarrow>
      pose (resolve_tag tw (resolve_tags tw tgs) tg) = pose (resolve_tags tw tgs) \<and>
      sections (resolve_tag tw (resolve_tags tw tgs) tg) ! 3 = sections (resolve_tags tw tgs) ! 3) \<and>
   (tag_kind tg \<noteq> Emotion \<and> int (tag_line tg) \<noteq> last_l_idx (resolve_tags tw tgs) \<longrightarrow>
      pose (resolve_tag tw (resolve_tags tw tgs) tg) = (pose (resolve_tags tw tgs) + 1) mod 5)"
proof (intro conjI)
  let ?st = "resolve_tags tw tgs"
  obtain w k v l p where tg: "tg = (w, k, v, l, p)" by (cases tg)
  show "map line_val (sections ?st ! 3) = map (\<lambda>k. str_nat (k mod 5)) [0..<length (sections ?st ! 2)]"
    and "length (sections ?st ! 3) = length (sections ?st ! 2)"
    using resolve_tags_pose [of tw tgs] by simp_all
  have "length (map line_val (sections ?st ! 2)) = Suc (length (remdups_adj (image_lines tgs)))"
    using resolve_tags_image [of tw tgs] by (simp only: length_Cons length_map)
  then show "length (sections ?st ! 2) = Suc (length (remdups_adj (image_lines tgs)))"
    by simp
  show "int (tag_line tg) = last_l_idx ?st \<longrightarrow>
      pose (resolve_tag tw ?st tg) = pose ?st \<and> sections (resolve_tag tw ?st tg) ! 3 = sections ?st ! 3"
    by (simp add: tg tag_line_def resolve_tag_pose_state resolve_tag_pose)
  show "tag_kind tg \<noteq> Emotion \<and> int (tag_line tg) \<noteq> last_l_idx ?st \<longrightarrow>
      pose (resolve_tag tw ?st tg) = (pose ?st + 1) mod 5"
    by (simp add: tg tag_line_def tag_kind_def resolve_tag_pose_state)
qed

text \<open>
  C5 after one line: a second tag of line 0 leaves the pose at 1, a tag of line 1 moves
  it to 2.
\<close>

theorem C5_pose_cycle_witness:
  "int (tag_line (0, Image, 0, 0, 0)) = last_l_idx (resolve_tags [] [(0, ImageAuto, 0, 0, 0)]) \<and>
   pose (resolve_tag [] (resolve_tags [] [(0, ImageAuto, 0, 0, 0)]) (0, Image, 0, 0, 0)) = 1 \<and>
   tag_kind (0, Image, 1, 1, 0) \<noteq> Emotion \<and>
   int (tag_line (0, Image, 1, 1, 0)) \<noteq> last_l_idx (resolve_tags [] [(0, ImageAuto, 0, 0, 0)]) \<and>
   pose (resolve_tag [] (resolve_tags [] [(0, ImageAuto, 0, 0, 0)]) (0, Image, 1, 1, 0)) = 2"
proof -
  let ?st = "resolve_tags [] [(0, ImageAuto, 0, 0, 0)]"
  have h1: "int (tag_line (0, Image, 0, 0, 0)) = last_l_idx ?st"
    by (simp add: tag_line_def resolve_one_line)
  have h2: "tag_kind (0, Image, 1, 1, 0) \<noteq> Emotion \<and>
      int (tag_line (0, Image, 1, 1, 0)) \<noteq> last_l_idx ?st"
    by (simp add: tag_line_def tag_kind_def resolve_one_line)
  from C5_pose_cycle [of "[]" "[(0, ImageAuto, 0, 0, 0)]" "(0, Image, 0, 0, 0)"] h1
  have p1: "pose (resolve_tag [] ?st (0, Image, 0, 0, 0)) = pose ?st" by blast
  from C5_pose_cycle [of "[]" "[(0, ImageAuto, 0, 0, 0)]" "(0, Image, 1, 1, 0)"] h2
  have p2: "pose (resolve_tag [] ?st (0, Image, 1, 1, 0)) = (pose ?st + 1) mod 5" by blast
  from h1 h2 p1 p2 show ?thesis by (simp add: resolve_one_line)
qed

subsection \<open>C6\<close>

text \<open>
  Claim C6. A token that starts with \<open><\<close> and ends with \<open>>\<close> adds exactly one
  emotion tag, with the code of its lower-cased interior and the current word index,
  line and paragraph, when that interior is in the vocabulary, and changes nothing
  otherwise. The vocabulary is explain, happy, sad, angry, confused, rq with the codes
  0 to 5. An angle bracket pair around a non-empty text without \<open>>\<close> is one token of
  the line. The script \<open><shout>\<close> yields the image\_auto tag of its line only, and its
  written emotion list is the baseline alone. The parser has no error value: it is a
  total function.
\<close>

theorem C6_emotion_tokens:
  "(startswith (CHR ''<'') tok \<and> endswith (CHR ''>'') tok \<longrightarrow>
      process_token l st tok =
        (case emotions_map (lower (interior tok)) of
           Some code \<Rightarrow>
             st\<lparr>tags := tags st @ [(current_word_idx st, Emotion, code, l, current_para_idx st)]\<rparr>
         | None \<Rightarrow> st)) \<and>
   map emotions_map [''explain'', ''happy'', ''sad'', ''angry'', ''confused'', ''rq'']
     = [Some 0, Some 1, Some 2, Some 3, Some 4, Some 5] \<and>
   dom emotions_map = {''explain'', ''happy'', ''sad'', ''angry'', ''confused'', ''rq''} \<and>
   (body \<noteq> [] \<and> CHR ''>'' \<notin> set body \<longrightarrow>
      findall_tokens (''<'' @ body @ ''>'' @ rest) = (''<'' @ body @ ''>'') # findall_tokens rest) \<and>
   snd (parse_annotated_text ''<shout>'') = [(0, ImageAuto, 0, 0, 0)] \<and>
   final_sections ''<shout>'' tw cs ! 1 = [''0.000,emotion,0'']"
proof (intro conjI impI)
  show "process_token l st tok =
        (case emotions_map (lower (interior tok)) of
           Some code \<Rightarrow>
             st\<lparr>tags := tags st @ [(current_word_idx st, Emotion, code, l, current_para_idx st)]\<rparr>
         | None \<Rightarrow> st)"
    if "startswith (CHR ''<'') tok \<and> endswith (CHR ''>'') tok"
    using that by (simp add: process_token_def Let_def)
  show "map emotions_map [''explain'', ''happy'', ''sad'', ''angry'', ''confused'', ''rq'']
     = [Some 0, Some 1, Some 2, Some 3, Some 4, Some 5]"
    by (simp add: emotions_map_def)
  show "dom emotions_map = {''explain'', ''happy'', ''sad'', ''angry'', ''confused'', ''rq''}"
    by (simp add: emotions_map_def dom_map_of_conv_image_fst)
  show "findall_tokens (''<'' @ body @ ''>'' @ rest) = (''<'' @ body @ ''>'') # findall_tokens rest"
    if "body \<noteq> [] \<and> CHR ''>'' \<notin> set body"
    using that match_bracket_closed [of body "CHR ''>''" "CHR ''<''" rest] by simp
  show "snd (parse_annotated_text ''<shout>'') = [(0, ImageAuto, 0, 0, 0)]"
    by (rule parse_shout)
  show "final_sections ''<shout>'' tw cs ! 1 = [''0.000,emotion,0'']"
    by (simp add: final_sections_def raw_sections_def parse_shout resolve_single_auto
        add_cues_explicit unique_lines_def)
qed

text \<open>
  C6 on the token \<open><Happy>\<close> at word index 1 of line 3, and on the line \<open><shout>\<close>.
\<close>

theorem C6_emotion_tokens_witness:
  "startswith (CHR ''<'') ''<Happy>'' \<and> endswith (CHR ''>'') ''<Happy>'' \<and>
   process_token 3 \<lparr>words = [''a''], tags = [], current_word_idx = 1, current_para_idx = 0\<rparr>
     ''<Happy>''
     = \<lparr>words = [''a''], tags = [(1, Emotion, 1, 3, 0)], current_word_idx = 1,
        current_para_idx = 0\<rparr> \<and>
   ''shout'' \<noteq> [] \<and> CHR ''>'' \<notin> set ''shout'' \<and>
   findall_tokens ''<shout>'' = [''<shout>'']"
proof -
  note c = C6_emotion_tokens [of "''<Happy>''" 3
      "\<lparr>words = [''a''], tags = [], current_word_idx = 1, current_para_idx = 0\<rparr>" "''shout''" "[]"
      "[]" "[]"]
  have h: "startswith (CHR ''<'') ''<Happy>'' \<and> endswith (CHR ''>'') ''<Happy>''"
    by (simp add: startswith_def endswith_def)
  have b: "''shout'' \<noteq> [] \<and> CHR ''>'' \<notin> set ''shout''" by simp
  have e: "emotions_map (lower (interior ''<Happy>'')) = Some 1" by code_simp
  from c h have "process_token 3
      \<lparr>words = [''a''], tags = [], current_word_idx = 1, current_para_idx = 0\<rparr> ''<Happy>'' =
        (case emotions_map (lower (interior ''<Happy>'')) of
           Some code \<Rightarrow>
             \<lparr>words = [''a''], tags = [], current_word_idx = 1, current_para_idx = 0\<rparr>
               \<lparr>tags := tags \<lparr>words = [''a''], tags = [], current_word_idx = 1,
                     current_para_idx = 0\<rparr> @
                  [(current_word_idx \<lparr>words = [''a''], tags = [], current_word_idx = 1,
                      current_para_idx = 0\<rparr>, Emotion, code, 3,
                    current_para_idx \<lparr>words = [''a''], tags = [], current_word_idx = 1,
                      current_para_idx = 0\<rparr>)]\<rparr>
         | None \<Rightarrow> \<lparr>words = [''a''], tags = [], current_word_idx = 1, current_para_idx = 0\<rparr>)"
    by blast
  then have p: "process_token 3
      \<lparr>words = [''a''], tags = [], current_word_idx = 1, current_para_idx = 0\<rparr> ''<Happy>''
     = \<lparr>words = [''a''], tags = [(1, Emotion, 1, 3, 0)], current_word_idx = 1,
        current_para_idx = 0\<rparr>"
    by (simp add: e)
  from c b have "findall_tokens (''<'' @ ''shout'' @ ''>'' @ []) =
      (''<'' @ ''shout'' @ ''>'') # findall_tokens []"
    by blast
  then have f: "findall_tokens ''<shout>'' = [''<shout>'']" by simp
  from h p b f show ?thesis by blast
qed

subsection \<open>C7\<close>

text \<open>
  Claim C7. The phoneme list before compaction has exactly one line per cue, in the order
  of the cues; the line of a cue carries the cue's own time and, as its value, the shape
  of the cue's code. The table maps A, B, C, D, E, F, G, H, X to m, t, a, a, u, au, f, y,
  m, and every other code to m. The lookup is total: no code fails.
\<close>

theorem C7_phoneme_cues:
  "raw_sections text tw cs ! 4 = map cue_line cs \<and>
   length (raw_sections text tw cs ! 4) = length cs \<and>
   line_time (cue_line c) = cue_start c \<and>
   line_val (cue_line c) = shape_of (cue_value c) \<and>
   map shape_of [''A'', ''B'', ''C'', ''D'', ''E'', ''F'', ''G'', ''H'', ''X'']
     = [''m'', ''t'', ''a'', ''a'', ''u'', ''au'', ''f'', ''y'', ''m''] \<and>
   (code \<notin> {''A'', ''B'', ''C'', ''D'', ''E'', ''F'', ''G'', ''H'', ''X''} \<longrightarrow> shape_of code = ''m'')"
proof (intro conjI)
  show "raw_sections text tw cs ! 4 = map cue_line cs" by (rule raw_sections_phoneme)
  then show "length (raw_sections text tw cs ! 4) = length cs" by simp
  show "line_time (cue_line c) = cue_start c" by (simp add: cue_line_def line_time_mk_line)
  show "line_val (cue_line c) = shape_of (cue_value c)"
    by (simp add: cue_line_def line_val_mk_line shape_of_no_comma)
  show "map shape_of [''A'', ''B'', ''C'', ''D'', ''E'', ''F'', ''G'', ''H'', ''X'']
     = [''m'', ''t'', ''a'', ''a'', ''u'', ''au'', ''f'', ''y'', ''m'']"
    by (simp add: shape_of_def RHUBARB_MAP_def)
  show "code \<notin> {''A'', ''B'', ''C'', ''D'', ''E'', ''F'', ''G'', ''H'', ''X''} \<longrightarrow> shape_of code = ''m''"
    by (simp add: shape_of_def RHUBARB_MAP_def)
qed

text \<open>
  C7 on the unknown code Q at 0.120.
\<close>

theorem C7_phoneme_cues_witness:
  "''Q'' \<notin> {''A'', ''B'', ''C'', ''D'', ''E'', ''F'', ''G'', ''H'', ''X''} \<and> shape_of ''Q'' = ''m'' \<and>
   raw_sections ''Hi'' [] [\<lparr>cue_start = 120, cue_value = ''Q''\<rparr>] ! 4 = [''0.120,phoneme,m'']"
  using C7_phoneme_cues [of "''Hi''" "[]" "[\<lparr>cue_start = 120, cue_value = ''Q''\<rparr>]"
      "\<lparr>cue_start = 120, cue_value = ''Q''\<rparr>" "''Q''"]
  by (simp add: cue_line_def mk_line_def time_str_def fixed3_def str_nat_small digit_char_def)

subsection \<open>C8\<close>

text \<open>
  Claim C8. The loop of the writer computes what the specification's rule says: it keeps
  an event if and only if its value differs from the value of the event kept before it,
  the first event always being kept. On the values this is the collapse of runs of equal
  consecutive values, not a removal of duplicates: in the list 0, 1, 1, 0 the last 0 is
  kept.
\<close>

theorem C8_compactor:
  "unique_lines ls = compactor_spec ls \<and>
   map line_val (unique_lines ls) = remdups_adj (map line_val ls) \<and>
   unique_lines [''0.000,emotion,0'', ''1.000,emotion,1'', ''2.000,emotion,1'', ''3.000,emotion,0'']
     = [''0.000,emotion,0'', ''1.000,emotion,1'', ''3.000,emotion,0'']"
proof (intro conjI)
  show "unique_lines ls = compactor_spec ls"
    by (cases ls) (simp_all add: unique_lines_def compactor_spec_def Let_def unique_from_keep_changes)
  show "map line_val (unique_lines ls) = remdups_adj (map line_val ls)"
    by (rule unique_lines_vals)
  show "unique_lines [''0.000,emotion,0'', ''1.000,emotion,1'', ''2.000,emotion,1'', ''3.000,emotion,0'']
     = [''0.000,emotion,0'', ''1.000,emotion,1'', ''3.000,emotion,0'']"
    by (simp add: unique_lines_def line_val_def Let_def)
qed

subsection \<open>C9\<close>

text \<open>
  Claim C9, as the code has it. The script has three lines, the third being the empty
  line after the final newline, which starts paragraph 1. The written emotion list has
  the event at 1.000 with value 1. The written image list has one event per line: line 0
  at 0.000 (the baseline; the event of line 0 itself, at 1.000, is compacted away),
  line 1 at 1.000 and line 2 at 1.500. The pose advances to 1 at the transition of
  line 0, to 2 at the transition of line 1 and to 3 at the transition of line 2. The
  written paragraph list has the baseline and the paragraph-1 event at 1.500.
\<close>

theorem C9_round_trip:
  "parse_annotated_text (''Hello world'' @ [newline] @ ''<happy> [lake] More text'' @ [newline])
     = ([''Hello'', ''world'', ''More'', ''text''],
        [(2, ImageAuto, 0, 0, 0), (2, Emotion, 1, 1, 0), (2, Image, 1, 1, 0),
         (4, ImageAuto, 1, 1, 0), (4, ImageAuto, 2, 2, 1)]) \<and>
   raw_sections (''Hello world'' @ [newline] @ ''<happy> [lake] More text'' @ [newline])
     [\<lparr>w_start = 0, w_end = 500\<rparr>, \<lparr>w_start = 500, w_end = 1000\<rparr>,
      \<lparr>w_start = 1000, w_end = 1500\<rparr>] []
     = [[''0.000,paragraph,0'', ''1.000,paragraph,0'', ''1.500,paragraph,1''],
        [''0.000,emotion,0'', ''1.000,emotion,1''],
        [''0.000,image,0'', ''1.000,image,0'', ''1.000,image,1'', ''1.500,image,2''],
        [''0.000,pose,0'', ''1.000,pose,1'', ''1.000,pose,2'', ''1.500,pose,3''],
        []] \<and>
   final_sections (''Hello world'' @ [newline] @ ''<happy> [lake] More text'' @ [newline])
     [\<lparr>w_start = 0, w_end = 500\<rparr>, \<lparr>w_start = 500, w_end = 1000\<rparr>,
      \<lparr>w_start = 1000, w_end = 1500\<rparr>] []
     = [[''0.000,paragraph,0'', ''1.500,paragraph,1''],
        [''0.000,emotion,0'', ''1.000,emotion,1''],
        [''0.000,image,0'', ''1.000,image,1'', ''1.500,image,2''],
        [''0.000,pose,0'', ''1.000,pose,1'', ''1.000,pose,2'', ''1.500,pose,3''],
        []]"
  by code_simp

text \<open>
  Claim C9 as stated fails: the written paragraph list has two entries, and the pose
  list reaches 1 at the transition of line 0 and 2 at the transition of line 1.
\<close>

theorem C9_counterexample:
  "final_sections (''Hello world'' @ [newline] @ ''<happy> [lake] More text'' @ [newline])
     [\<lparr>w_start = 0, w_end = 500\<rparr>, \<lparr>w_start = 500, w_end = 1000\<rparr>,
      \<lparr>w_start = 1000, w_end = 1500\<rparr>] [] ! 0
     = [''0.000,paragraph,0'', ''1.500,paragraph,1''] \<and>
   final_sections (''Hello world'' @ [newline] @ ''<happy> [lake] More text'' @ [newline])
     [\<lparr>w_start = 0, w_end = 500\<rparr>, \<lparr>w_start = 500, w_end = 1000\<rparr>,
      \<lparr>w_start = 1000, w_end = 1500\<rparr>] [] ! 3
     = [''0.000,pose,0'', ''1.000,pose,1'', ''1.000,pose,2'', ''1.500,pose,3'']"
  by code_simp

subsection \<open>C10\<close>

text \<open>
  Claim C10. With \<open>n\<close> the number of lines of the script (at least one, blank lines
  counted), the image\_auto tags carry the line indices 0, ..., n - 1 in this order, one
  per line; the image list before compaction holds the baseline followed by exactly one
  event per line, with the values 0, ..., n - 1 in increasing order; and the pose list
  holds n events after its baseline, before compaction and in the schedule as written.
\<close>

theorem C10_one_transition_per_line:
  "auto_lines (snd (parse_annotated_text text)) = [0..<length (split_on newline text)] \<and>
   map line_val (raw_sections text tw cs ! 2)
     = ''0'' # map str_nat [0..<length (split_on newline text)] \<and>
   length (raw_sections text tw cs ! 3) = Suc (length (split_on newline text)) \<and>
   length (final_sections text tw cs ! 3) = Suc (length (split_on newline text)) \<and>
   0 < length (split_on newline text)"
proof (intro conjI)
  let ?st = "resolve_tags tw (snd (parse_annotated_text text))"
  show "auto_lines (snd (parse_annotated_text text)) = [0..<length (split_on newline text)]"
    by (rule parse_auto_lines)
  show v: "map line_val (raw_sections text tw cs ! 2)
     = ''0'' # map str_nat [0..<length (split_on newline text)]"
    using resolve_tags_image [of tw "snd (parse_annotated_text text)"]
    by (simp add: raw_sections_nth parse_image_lines)
  have "length (map line_val (raw_sections text tw cs ! 2)) = Suc (length (split_on newline text))"
    by (simp only: v) simp
  then show r: "length (raw_sections text tw cs ! 3) = Suc (length (split_on newline text))"
    using resolve_tags_pose [of tw "snd (parse_annotated_text text)"]
    by (simp add: raw_sections_nth)
  show "length (final_sections text tw cs ! 3) = Suc (length (split_on newline text))"
    by (simp only: final_pose_length r)
  show "0 < length (split_on newline text)"
    by (simp add: length_split_on)
qed

end
